theory Spec2Isabelle
  imports Main "HOL-Library.Multiset" "HOL-Library.Word"
begin

section \<open>The bounded producer/consumer queue (std\_threads/06\_task\_queue.cpp)\<close>

text \<open>
  A member function of \<open>ThreadSafeQueue\<close> runs under the mutex \<open>mtx\<close>.  A call to
  \<open>cv.wait(lock, pred)\<close> releases the mutex while \<open>pred\<close> is false and re-tests it,
  with the mutex held, after every wake-up; the call therefore completes only from a
  state in which \<open>pred\<close> holds, and from the last test of \<open>pred\<close> to the release of the
  mutex it is one atomic step on the protected fields.  A call is modelled by that
  step: it either \<open>Waits\<close> (the predicate is false in this state, the caller stays
  blocked and the state is as it was) or \<open>Returns\<close> a value and the next state.
\<close>

datatype ('r, 's) call = Waits | Returns 'r 's

text \<open>The fields \<open>q\<close>, \<open>max_size\<close> (a \<open>size_t\<close>) and \<open>finished\<close> of the class.\<close>

record 'a tsq =
  q :: "'a list"
  max_size :: nat
  finished :: bool

text \<open>\<open>ThreadSafeQueue(size_t maxSize = 1000) : max_size(maxSize) {}\<close>\<close>

definition ThreadSafeQueue :: "nat \<Rightarrow> 'a tsq" where
  "ThreadSafeQueue maxSize = \<lparr>q = [], max_size = maxSize, finished = False\<rparr>"

definition ThreadSafeQueue_default :: "'a tsq" where
  "ThreadSafeQueue_default = ThreadSafeQueue 1000"

text \<open>
  \<open>void push(T item)\<close>: waits for \<open>q.size() < max_size || finished\<close>; returns at once
  when \<open>finished\<close>; otherwise appends the item.  The return type is \<open>void\<close>.
\<close>

definition push :: "'a \<Rightarrow> 'a tsq \<Rightarrow> (unit, 'a tsq) call" where
  "push item s =
     (if length (q s) < max_size s \<or> finished s then
        (if finished s then Returns () s
         else Returns () (s\<lparr>q := q s @ [item]\<rparr>))
      else Waits)"

text \<open>
  \<open>std::optional<T> pop()\<close>: waits for \<open>!q.empty() || finished\<close>; then the two tests
  of the source in their order, then the front of the queue is moved out.
\<close>

definition pop :: "'a tsq \<Rightarrow> ('a option, 'a tsq) call" where
  "pop s =
     (if q s \<noteq> [] \<or> finished s then
        (if q s = [] \<and> finished s then Returns None s
         else if q s = [] then Returns None s
         else Returns (Some (hd (q s))) (s\<lparr>q := tl (q s)\<rparr>))
      else Waits)"

text \<open>\<open>void set_finished()\<close>: never waits.\<close>

definition set_finished :: "'a tsq \<Rightarrow> 'a tsq" where
  "set_finished s = s\<lparr>finished := True\<rparr>"

text \<open>
  A history of calls on one queue, in the order in which they complete.  \<open>run\<close> is
  \<open>None\<close> when a call of the history would have to wait in the state it meets: that
  order of completion is then not one the queue can produce.
\<close>

datatype 'a op = Push 'a | Pop | SetFinished

datatype 'a ret = PushRet | PopRet "'a option" | SetFinishedRet

fun call_op :: "'a op \<Rightarrow> 'a tsq \<Rightarrow> ('a ret, 'a tsq) call" where
  "call_op (Push x) s = (case push x s of Waits \<Rightarrow> Waits | Returns u s' \<Rightarrow> Returns PushRet s')"
| "call_op Pop s = (case pop s of Waits \<Rightarrow> Waits | Returns r s' \<Rightarrow> Returns (PopRet r) s')"
| "call_op SetFinished s = Returns SetFinishedRet (set_finished s)"

fun run :: "'a op list \<Rightarrow> 'a tsq \<Rightarrow> ('a ret list \<times> 'a tsq) option" where
  "run [] s = Some ([], s)"
| "run (c # cs) s =
     (case call_op c s of
        Waits \<Rightarrow> None
      | Returns r s' \<Rightarrow>
          (case run cs s' of None \<Rightarrow> None | Some (rs, s'') \<Rightarrow> Some (r # rs, s'')))"

text \<open>The values handed out by the \<open>pop\<close> calls of a history, in order.\<close>

fun popped :: "'a ret list \<Rightarrow> 'a option list" where
  "popped [] = []"
| "popped (PopRet r # rs) = r # popped rs"
| "popped (PushRet # rs) = popped rs"
| "popped (SetFinishedRet # rs) = popped rs"

fun pops :: "'a op list \<Rightarrow> nat" where
  "pops [] = 0"
| "pops (Pop # cs) = Suc (pops cs)"
| "pops (Push x # cs) = pops cs"
| "pops (SetFinished # cs) = pops cs"


section \<open>The promise/future pair (std\_threads/07 and 12)\<close>

text \<open>
  An exception object, by its class and its \<open>what()\<close> text.
\<close>

datatype exn =
    invalid_argument string
  | runtime_error string
  | future_error string
  | other_exception string

datatype chan_error = AlreadySet | AlreadyConsumed

text \<open>
  The shared state behind a \<open>std::promise\<close> (or a \<open>std::packaged_task\<close>) and its
  \<open>std::future\<close>: \<open>Pending\<close> until a value or an exception is stored, and whether the
  future has handed the result out.
\<close>

datatype 'a chan_state = Pending | Ready "exn + 'a"

record 'a channel =
  state :: "'a chan_state"
  consumed :: bool

definition new_channel :: "'a channel" where
  "new_channel = \<lparr>state = Pending, consumed = False\<rparr>"

definition ready :: "exn + 'a \<Rightarrow> 'a channel" where
  "ready r = \<lparr>state = Ready r, consumed = False\<rparr>"

text \<open>
  Modelled from the spec: \<open>set_value\<close>, \<open>set_error\<close> and \<open>get\<close> are members of
  \<open>std::promise\<close> and \<open>std::future\<close>, whose implementation is in the C++ standard
  library and not in the repository.  Section 4.2 of the specification: \<open>set_value(v)\<close>
  and \<open>set_error(e)\<close> take the channel from Pending to Ready and fail with
  \<open>AlreadySet\<close> when it is Ready already; \<open>get()\<close> blocks until the channel is Ready,
  then returns the stored value or propagates the stored error, and fails with
  \<open>AlreadyConsumed\<close> when called a second time.
\<close>

definition set_value :: "'a \<Rightarrow> 'a channel \<Rightarrow> chan_error + 'a channel" where
  "set_value v c =
     (case state c of
        Pending \<Rightarrow> Inr (c\<lparr>state := Ready (Inr v)\<rparr>)
      | Ready r \<Rightarrow> Inl AlreadySet)"

definition set_error :: "exn \<Rightarrow> 'a channel \<Rightarrow> chan_error + 'a channel" where
  "set_error e c =
     (case state c of
        Pending \<Rightarrow> Inr (c\<lparr>state := Ready (Inl e)\<rparr>)
      | Ready r \<Rightarrow> Inl AlreadySet)"

definition get :: "'a channel \<Rightarrow> (chan_error + (exn + 'a), 'a channel) call" where
  "get c =
     (if consumed c then Returns (Inl AlreadyConsumed) c
      else case state c of
             Pending \<Rightarrow> Waits
           | Ready r \<Rightarrow> Returns (Inr r) (c\<lparr>consumed := True\<rparr>))"

text \<open>
  The exception object that a failed \<open>set_*\<close> or \<open>get\<close> throws in the C++ library.
\<close>

fun thrown :: "chan_error \<Rightarrow> exn" where
  "thrown AlreadySet = future_error ''promise_already_satisfied''"
| "thrown AlreadyConsumed = future_error ''no_state''"

text \<open>
  \<open>std::to_string(int)\<close>, decimal.
\<close>

fun digits :: "nat \<Rightarrow> string" where
  "digits n =
     (if n < 10 then [''0123456789'' ! n]
      else digits (n div 10) @ [''0123456789'' ! (n mod 10)])"

declare digits.simps [simp del]

definition to_string :: "int \<Rightarrow> string" where
  "to_string i = (if i < 0 then CHR ''-'' # digits (nat (- i)) else digits (nat i))"

text \<open>
  \<open>risky_worker(int input, std::promise<std::string> result_promise)\<close>, file 12.  The
  \<open>try\<close> block throws for a negative and for a zero input, and otherwise calls
  \<open>set_value\<close>; the handler \<open>catch (...)\<close> calls \<open>set_exception\<close> with whatever was
  thrown in the block, the exception of a failed \<open>set_value\<close> included.  A failure
  of \<open>set_exception\<close> in the handler leaves the function (\<open>Inl\<close>).
\<close>

definition risky_body :: "int \<Rightarrow> exn + string" where
  "risky_body input =
     (if input < 0 then Inl (invalid_argument ''Input cannot be negative'')
      else if input = 0 then Inl (runtime_error ''Input cannot be zero (another error)'')
      else Inr (''Processed input '' @ to_string input))"

definition risky_worker :: "int \<Rightarrow> string channel \<Rightarrow> chan_error + string channel" where
  "risky_worker input result_promise =
     (case risky_body input of
        Inl e \<Rightarrow> set_error e result_promise
      | Inr result \<Rightarrow>
          (case set_value result result_promise of
             Inr c \<Rightarrow> Inr c
           | Inl err \<Rightarrow> set_error (thrown err) result_promise))"

text \<open>
  \<open>calculate_sum(std::vector<int>& data, std::promise<long long> result_promise)\<close>,
  file 07.  The loop adds each \<open>int\<close> (32 bits, signed) to \<open>long long sum\<close> (64 bits,
  signed).  \<open>sum_loop\<close> carries the value of \<open>sum\<close> as \<open>acc\<close>; an addition whose result is not
  a \<open>long long\<close> is undefined behaviour in C++, and the loop then has no result
  (\<open>None\<close>).  After the loop, as in \<open>risky_worker\<close>.
\<close>

fun sum_loop :: "int \<Rightarrow> 32 word list \<Rightarrow> int option" where
  "sum_loop acc [] = Some acc"
| "sum_loop acc (val # data) =
     (if - (2 ^ 63) \<le> acc + sint val \<and> acc + sint val < 2 ^ 63
      then sum_loop (acc + sint val) data else None)"

definition calculate_sum ::
    "32 word list \<Rightarrow> 64 word channel \<Rightarrow> (chan_error + 64 word channel) option" where
  "calculate_sum data result_promise =
     (case sum_loop 0 data of
        None \<Rightarrow> None
      | Some acc \<Rightarrow>
          Some (case set_value (word_of_int acc) result_promise of
                  Inr c \<Rightarrow> Inr c
                | Inl err \<Rightarrow> set_error (thrown err) result_promise))"

text \<open>A history of calls on one channel, as for the queue.\<close>

datatype 'a chan_op = SetValue 'a | SetError exn | Get

datatype 'a chan_ret = SetRet "chan_error option" | GetRet "chan_error + (exn + 'a)"

fun set_ret :: "chan_error + 'a channel \<Rightarrow> 'a channel \<Rightarrow> ('a chan_ret, 'a channel) call" where
  "set_ret (Inl err) c = Returns (SetRet (Some err)) c"
| "set_ret (Inr c') c = Returns (SetRet None) c'"

fun chan_call :: "'a chan_op \<Rightarrow> 'a channel \<Rightarrow> ('a chan_ret, 'a channel) call" where
  "chan_call (SetValue v) c = set_ret (set_value v c) c"
| "chan_call (SetError e) c = set_ret (set_error e c) c"
| "chan_call Get c = (case get c of Waits \<Rightarrow> Waits | Returns r c' \<Rightarrow> Returns (GetRet r) c')"

fun chan_run :: "'a chan_op list \<Rightarrow> 'a channel \<Rightarrow> ('a chan_ret list \<times> 'a channel) option" where
  "chan_run [] c = Some ([], c)"
| "chan_run (x # xs) c =
     (case chan_call x c of
        Waits \<Rightarrow> None
      | Returns r c' \<Rightarrow>
          (case chan_run xs c' of None \<Rightarrow> None | Some (rs, c'') \<Rightarrow> Some (r # rs, c'')))"

text \<open>The \<open>set_*\<close> call that stores a given outcome.\<close>

fun set_op :: "exn + 'a \<Rightarrow> 'a chan_op" where
  "set_op (Inr v) = SetValue v"
| "set_op (Inl e) = SetError e"


section \<open>The thread pool (std\_threads/14\_simple\_threadpool.cpp)\<close>

text \<open>
  An element of \<open>tasks\<close>, a \<open>std::function<void()>\<close>.  It is either the callable given
  to \<open>enqueue\<close>, modelled by what a call of it does (it returns, \<open>None\<close>, or it throws),
  or the lambda \<open>[task_ptr](){ (*task_ptr)(); }\<close> of \<open>enqueue_task\<close>, with the address
  of the shared state of its \<open>packaged_task\<close> and what the bound function does (it
  returns a value, \<open>Inr\<close>, or it throws).
\<close>

datatype 'a task = Fn "exn option" | Packaged nat "exn + 'a"

text \<open>
  Where a worker thread is: in its loop between two tasks (waiting for the mutex or on
  the condition variable), past the critical section with a task moved out of the
  queue, or returned from the lambda.
\<close>

datatype 'a worker = Looping | Holding "'a task" | Exited

text \<open>
  The members \<open>workers\<close>, \<open>tasks\<close> and \<open>stop\<close>; the shared states of the futures handed
  out, by address, with the next free address; the lines written to \<open>std::cerr\<close>; how
  far the destructor is (\<open>None\<close>: not called, \<open>Some k\<close>: \<open>stop\<close> is set and the first \<open>k\<close>
  workers are joined); whether \<open>std::terminate\<close> has been called; and, as a history
  variable that no operation reads, the tasks whose call has returned.
\<close>

record 'a pool =
  workers :: "'a worker list"
  tasks :: "'a task list"
  stop :: bool
  shared :: "nat \<rightharpoonup> 'a channel"
  next_h :: nat
  cerr :: "string list"
  dtor :: "nat option"
  terminated :: bool
  completed :: "'a task list"

text \<open>\<open>SimpleThreadPool(size_t numThreads) : stop(false)\<close> starts \<open>numThreads\<close> workers.\<close>

definition SimpleThreadPool :: "nat \<Rightarrow> 'a pool" where
  "SimpleThreadPool numThreads =
     \<lparr>workers = replicate numThreads Looping, tasks = [], stop = False,
      shared = Map.empty, next_h = 0, cerr = [], dtor = None,
      terminated = False, completed = []\<rparr>"

text \<open>
  \<open>void enqueue(std::function<void()> f)\<close>: under the mutex, a warning on \<open>std::cerr\<close>
  and \<open>return\<close> when \<open>stop\<close> is set, else \<open>tasks.emplace\<close>.  It never waits and it has no
  \<open>throw\<close>: the result is always \<open>Inr\<close>.
\<close>

definition enqueue :: "exn option \<Rightarrow> 'a pool \<Rightarrow> exn + 'a pool" where
  "enqueue f s =
     (if stop s then
        Inr (s\<lparr>cerr := cerr s @ [''ThreadPool: Warning! Enqueue on stopped pool.'']\<rparr>)
      else Inr (s\<lparr>tasks := tasks s @ [Fn f]\<rparr>))"

text \<open>
  \<open>enqueue_task(f, args...)\<close>: makes the \<open>packaged_task\<close> and takes its future; under
  the mutex, throws \<open>std::runtime_error\<close> when \<open>stop\<close> is set (the \<open>packaged_task\<close> and
  the future are then destroyed with the frame, so no shared state is left), else
  enqueues the lambda and returns the future.
\<close>

definition enqueue_task :: "exn + 'a \<Rightarrow> 'a pool \<Rightarrow> exn + (nat \<times> 'a pool)" where
  "enqueue_task f s =
     (if stop s then Inl (runtime_error ''Enqueue on stopped ThreadPool'')
      else Inr (next_h s,
             s\<lparr>shared := (shared s)(next_h s \<mapsto> new_channel),
               next_h := Suc (next_h s),
               tasks := tasks s @ [Packaged (next_h s) f]\<rparr>))"

text \<open>
  The critical section of worker \<open>i\<close>: wait for \<open>stop || !tasks.empty()\<close>; return from
  the thread when \<open>stop && tasks.empty()\<close>; else move the front of \<open>tasks\<close> out.
\<close>

definition worker_take :: "nat \<Rightarrow> 'a pool \<Rightarrow> (unit, 'a pool) call" where
  "worker_take i s =
     (if stop s \<or> tasks s \<noteq> [] then
        (if stop s \<and> tasks s = [] then Returns () (s\<lparr>workers := (workers s)[i := Exited]\<rparr>)
         else Returns () (s\<lparr>workers := (workers s)[i := Holding (hd (tasks s))],
                           tasks := tl (tasks s)\<rparr>))
      else Waits)"

text \<open>
  Modelled from the spec: \<open>std::packaged_task::operator()\<close> is library code; it calls
  the stored function and routes the value it returns, or the exception it throws,
  into the shared state (section 4.3: the error is captured into the channel of the
  task), and throws itself when the shared state is missing or set already.
\<close>

definition packaged_call :: "exn + 'a \<Rightarrow> 'a channel \<Rightarrow> chan_error + 'a channel" where
  "packaged_call f c = (case f of Inr v \<Rightarrow> set_value v c | Inl e \<Rightarrow> set_error e c)"

text \<open>
  \<open>task()\<close>, outside the mutex: the shared states after the call, or the exception
  that leaves the call.
\<close>

fun call_task :: "'a task \<Rightarrow> (nat \<rightharpoonup> 'a channel) \<Rightarrow> exn + (nat \<rightharpoonup> 'a channel)" where
  "call_task (Fn None) m = Inr m"
| "call_task (Fn (Some e)) m = Inl e"
| "call_task (Packaged h f) m =
     (case m h of
        None \<Rightarrow> Inl (future_error ''no_state'')
      | Some c \<Rightarrow>
          (case packaged_call f c of
             Inl err \<Rightarrow> Inl (thrown err)
           | Inr c' \<Rightarrow> Inr (m(h \<mapsto> c'))))"

text \<open>
  Worker \<open>i\<close> calls the task it holds and goes back to the head of its loop.  The loop
  has no handler: an exception that leaves \<open>task()\<close> leaves the thread function, which
  calls \<open>std::terminate\<close>.
\<close>

definition worker_run :: "nat \<Rightarrow> 'a task \<Rightarrow> 'a pool \<Rightarrow> 'a pool" where
  "worker_run i t s =
     (case call_task t (shared s) of
        Inl e \<Rightarrow> s\<lparr>terminated := True\<rparr>
      | Inr m \<Rightarrow> s\<lparr>workers := (workers s)[i := Looping], shared := m,
                   completed := completed s @ [t]\<rparr>)"

text \<open>
  \<open>~SimpleThreadPool()\<close>: sets \<open>stop\<close> under the mutex, then joins the workers in
  order; \<open>join\<close> returns when the thread has returned.
\<close>

definition destructor_begin :: "'a pool \<Rightarrow> 'a pool" where
  "destructor_begin s = s\<lparr>stop := True, dtor := Some 0\<rparr>"

definition destructor_join :: "nat \<Rightarrow> 'a pool \<Rightarrow> (unit, 'a pool) call" where
  "destructor_join k s =
     (if k < length (workers s) \<and> workers s ! k = Exited
      then Returns () (s\<lparr>dtor := Some (Suc k)\<rparr>) else Waits)"


text \<open>
  The threads interleave at the granularity of these steps.  \<open>fire\<close> is \<open>None\<close> when
  the step cannot happen in the state: the thread is not at that point, it has to
  wait, or the process has been terminated.
\<close>

datatype 'a event =
    Enqueue "exn option"
  | EnqueueTask "exn + 'a"
  | Take nat
  | Run nat
  | Destroy
  | Join

fun step :: "'a event \<Rightarrow> 'a pool \<Rightarrow> 'a pool option" where
  "step (Enqueue f) s = (case enqueue f s of Inl e \<Rightarrow> Some s | Inr s' \<Rightarrow> Some s')"
| "step (EnqueueTask f) s = (case enqueue_task f s of Inl e \<Rightarrow> Some s | Inr (h, s') \<Rightarrow> Some s')"
| "step (Take i) s =
     (if i < length (workers s) \<and> workers s ! i = Looping then
        (case worker_take i s of Waits \<Rightarrow> None | Returns u s' \<Rightarrow> Some s')
      else None)"
| "step (Run i) s =
     (if i < length (workers s) then
        (case workers s ! i of Holding t \<Rightarrow> Some (worker_run i t s) | _ \<Rightarrow> None)
      else None)"
| "step Destroy s = (case dtor s of None \<Rightarrow> Some (destructor_begin s) | Some k \<Rightarrow> None)"
| "step Join s =
     (case dtor s of
        None \<Rightarrow> None
      | Some k \<Rightarrow> (case destructor_join k s of Waits \<Rightarrow> None | Returns u s' \<Rightarrow> Some s'))"

definition fire :: "'a event \<Rightarrow> 'a pool \<Rightarrow> 'a pool option" where
  "fire e s = (if terminated s then None else step e s)"

fun exec :: "'a event list \<Rightarrow> 'a pool \<Rightarrow> 'a pool option" where
  "exec [] s = Some s"
| "exec (e # es) s = (case fire e s of None \<Rightarrow> None | Some s' \<Rightarrow> exec es s')"

text \<open>The tasks that workers hold, and the tasks accepted and not yet completed.\<close>

fun held :: "'a worker list \<Rightarrow> 'a task list" where
  "held [] = []"
| "held (Holding t # ws) = t # held ws"
| "held (w # ws) = held ws"

definition pending :: "'a pool \<Rightarrow> 'a task multiset" where
  "pending s = mset (tasks s) + mset (held (workers s))"


fun handle_of :: "'a task \<Rightarrow> nat option" where
  "handle_of (Fn f) = None"
| "handle_of (Packaged h f) = Some h"

text \<open>
  What holds in every state of a pool: the destructor has set \<open>stop\<close> and joined only
  workers that have returned; a worker has returned only with \<open>stop\<close> set and \<open>tasks\<close>
  empty; the shared state of a pending wrapped task is allocated, pending and its own;
  the shared state of a completed one holds the outcome of its function.
\<close>

definition inv_dtor :: "'a pool \<Rightarrow> bool" where
  "inv_dtor s =
     (case dtor s of
        None \<Rightarrow> True
      | Some k \<Rightarrow> stop s \<and> k \<le> length (workers s) \<and> (\<forall>j<k. workers s ! j = Exited))"

definition inv_exit :: "'a pool \<Rightarrow> bool" where
  "inv_exit s = (Exited \<in> set (workers s) \<longrightarrow> stop s \<and> tasks s = [])"

definition inv_heap :: "'a pool \<Rightarrow> bool" where
  "inv_heap s =
     ((\<forall>h f. Packaged h f \<in># pending s \<longrightarrow>
          h < next_h s \<and> (\<exists>c. shared s h = Some c \<and> state c = Pending))
      \<and> (\<forall>h. size (filter_mset (\<lambda>t. handle_of t = Some h) (pending s)) \<le> 1)
      \<and> (\<forall>h f. Packaged h f \<in> set (completed s) \<longrightarrow>
          h < next_h s \<and> (\<exists>c. shared s h = Some c \<and> state c = Ready f)))"


definition pool_inv :: "'a pool \<Rightarrow> bool" where
  "pool_inv s = (inv_dtor s \<and> inv_exit s \<and> inv_heap s)"








section \<open>Properties of the queue\<close>

lemma push_open:
  "\<not> finished s \<Longrightarrow> length (q s) < max_size s \<Longrightarrow> push x s = Returns () (s\<lparr>q := q s @ [x]\<rparr>)"
  by (simp add: push_def)

lemma push_full: "\<not> finished s \<Longrightarrow> \<not> length (q s) < max_size s \<Longrightarrow> push x s = Waits"
  by (simp add: push_def)

lemma push_finished: "finished s \<Longrightarrow> push x s = Returns () s"
  by (simp add: push_def)

lemma pop_nonempty: "q s = x # xs \<Longrightarrow> pop s = Returns (Some x) (s\<lparr>q := xs\<rparr>)"
  by (simp add: pop_def)

lemma pop_empty_finished: "q s = [] \<Longrightarrow> finished s \<Longrightarrow> pop s = Returns None s"
  by (simp add: pop_def)

lemma pop_empty_open: "q s = [] \<Longrightarrow> \<not> finished s \<Longrightarrow> pop s = Waits"
  by (simp add: pop_def)

text \<open>
  C9.  \<open>pop\<close> returns \<open>std::nullopt\<close> only when \<open>finished\<close> is set; on a queue that is
  not finished a completed \<open>pop\<close> returns the item at the front.
\<close>

theorem pop_sentinel_reliable:
  assumes "pop s = Returns r s'"
  shows "(r = None \<longrightarrow> finished s) \<and> (\<not> finished s \<longrightarrow> (\<exists>x. r = Some x \<and> q s = x # q s'))"
proof (cases "q s")
  case Nil
  with assms show ?thesis by (auto simp: pop_def split: if_splits)
next
  case (Cons x xs)
  with assms show ?thesis by (auto simp: pop_nonempty)
qed

theorem pop_sentinel_reliable_witness:
  "pop \<lparr>q = [4::nat, 5], max_size = 2, finished = False\<rparr>
     = Returns (Some 4) \<lparr>q = [5], max_size = 2, finished = False\<rparr>
   \<and> (\<exists>x. Some (4::nat) = Some x \<and> [4, 5] = x # [5])"
  using pop_sentinel_reliable
    [of "\<lparr>q = [4::nat, 5], max_size = 2, finished = False\<rparr>" "Some 4"
        "\<lparr>q = [5], max_size = 2, finished = False\<rparr>"]
  by (simp add: pop_def)


subsection \<open>Histories\<close>

lemma run_append:
  "run (cs @ ds) s =
     (case run cs s of
        None \<Rightarrow> None
      | Some (rs, s') \<Rightarrow>
          (case run ds s' of None \<Rightarrow> None | Some (rs', s'') \<Rightarrow> Some (rs @ rs', s'')))"
  by (induction cs arbitrary: s) (auto split: call.splits option.splits)

lemma run_pushes_open:
  assumes "\<not> finished s" and "run (map Push ps) s = Some (rs, s1)"
  shows "s1 = s\<lparr>q := q s @ ps\<rparr> \<and> rs = replicate (length ps) PushRet"
  using assms
proof (induction ps arbitrary: s rs)
  case Nil
  then show ?case by simp
next
  case (Cons p ps)
  from Cons.prems have room: "length (q s) < max_size s"
    by (auto simp: push_def split: if_splits call.splits)
  let ?s = "s\<lparr>q := q s @ [p]\<rparr>"
  from Cons.prems room obtain rs' where rs': "run (map Push ps) ?s = Some (rs', s1)" "rs = PushRet # rs'"
    by (auto simp: push_open split: option.splits)
  have "\<not> finished ?s" using Cons.prems by simp
  from Cons.IH [OF this rs'(1)] rs'(2) show ?case by simp
qed

lemma run_pops_nonempty:
  "q s = xs @ ys \<Longrightarrow>
   run (replicate (length xs) Pop) s = Some (map (\<lambda>x. PopRet (Some x)) xs, s\<lparr>q := ys\<rparr>)"
proof (induction xs arbitrary: s)
  case Nil
  then show ?case by simp
next
  case (Cons x xs)
  then have "pop s = Returns (Some x) (s\<lparr>q := xs @ ys\<rparr>)"
    by (simp add: pop_nonempty)
  moreover have "run (replicate (length xs) Pop) (s\<lparr>q := xs @ ys\<rparr>)
      = Some (map (\<lambda>x. PopRet (Some x)) xs, s\<lparr>q := xs @ ys\<rparr>\<lparr>q := ys\<rparr>)"
    by (rule Cons.IH) simp
  ultimately show ?case by simp
qed

text \<open>
  C1.  FIFO order: when the calls \<open>push(p1)\<close>, ..., \<open>push(pk)\<close> complete, in this order,
  on a queue that is empty and not finished (so that each of them enqueues), the next
  \<open>k\<close> calls of \<open>pop\<close> complete and return \<open>p1\<close>, ..., \<open>pk\<close> in this order, and leave the
  queue empty.
\<close>

theorem fifo_order:
  assumes "q s = []" and "\<not> finished s" and "run (map Push ps) s = Some (rs, s1)"
  shows "run (replicate (length ps) Pop) s1 = Some (map (\<lambda>p. PopRet (Some p)) ps, s)"
proof -
  from run_pushes_open [OF assms(2,3)] assms(1) have s1: "s1 = s\<lparr>q := ps\<rparr>"
    by simp
  then have "q s1 = ps @ []" by simp
  from run_pops_nonempty [OF this] s1 assms(1) show ?thesis by simp
qed

theorem fifo_order_witness:
  "run (map Push [7, 8, 9 :: nat]) (ThreadSafeQueue 3)
     = Some ([PushRet, PushRet, PushRet], \<lparr>q = [7, 8, 9], max_size = 3, finished = False\<rparr>)
   \<and> run [Pop, Pop, Pop] \<lparr>q = [7, 8, 9 :: nat], max_size = 3, finished = False\<rparr>
     = Some ([PopRet (Some 7), PopRet (Some 8), PopRet (Some 9)], ThreadSafeQueue 3)"
proof -
  have a: "q (ThreadSafeQueue 3 :: nat tsq) = []" and b: "\<not> finished (ThreadSafeQueue 3 :: nat tsq)"
    by (simp_all add: ThreadSafeQueue_def)
  have c: "run (map Push [7, 8, 9 :: nat]) (ThreadSafeQueue 3)
     = Some ([PushRet, PushRet, PushRet], \<lparr>q = [7, 8, 9], max_size = 3, finished = False\<rparr>)"
    by (simp add: ThreadSafeQueue_def push_def)
  from fifo_order [OF a b c] c show ?thesis by simp
qed


subsection \<open>After \<open>set_finished\<close>\<close>

lemma set_finished_idem: "finished s \<Longrightarrow> set_finished s = s"
  by (simp add: set_finished_def)

lemma take_pad_Suc: "take n (ys @ replicate (Suc n) a) = take n (ys @ replicate n a)"
  by (simp add: min_def del: replicate.simps)

lemma run_finished:
  assumes "finished s"
  shows "\<exists>rs. run cs s = Some (rs, s\<lparr>q := drop (pops cs) (q s)\<rparr>)
           \<and> popped rs = take (pops cs) (map Some (q s) @ replicate (pops cs) None)"
  using assms
proof (induction cs arbitrary: s)
  case Nil
  then show ?case by simp
next
  case (Cons c cs)
  show ?case
  proof (cases c)
    case (Push x)
    from Cons.IH [OF Cons.prems] Cons.prems show ?thesis
      by (auto simp: Push push_finished)
  next
    case SetFinished
    from Cons.IH [OF Cons.prems] Cons.prems show ?thesis
      by (auto simp: SetFinished set_finished_idem)
  next
    case Pop
    show ?thesis
    proof (cases "q s")
      case Nil
      from Cons.IH [OF Cons.prems] Cons.prems Nil show ?thesis
        by (auto simp: Pop pop_empty_finished)
    next
      case (Cons x xs)
      let ?s = "s\<lparr>q := xs\<rparr>"
      have "finished ?s" using Cons.prems by simp
      from Cons.IH [OF this] obtain rs where
        rs: "run cs ?s = Some (rs, ?s\<lparr>q := drop (pops cs) xs\<rparr>)"
            "popped rs = take (pops cs) (map Some xs @ replicate (pops cs) None)"
        by auto
      from rs Cons show ?thesis
        by (simp add: Pop pop_nonempty take_pad_Suc del: replicate_Suc)
    qed
  qed
qed

text \<open>
  C6.  Drain-to-stop: whatever calls complete after \<open>set_finished()\<close> (none of them
  waits), their \<open>pop\<close>s return the items that were in the queue when it was called,
  from the front and in order, and \<open>std::nullopt\<close> from then on: the \<open>n\<close> values
  returned are the first \<open>n\<close> of the pending items followed by \<open>nullopt\<close>s only.
\<close>

theorem drain_to_stop:
  "\<exists>rs. run cs (set_finished s) = Some (rs, (set_finished s)\<lparr>q := drop (pops cs) (q s)\<rparr>)
     \<and> popped rs = take (pops cs) (map Some (q s) @ replicate (pops cs) None)"
proof -
  have "finished (set_finished s)" and "q (set_finished s) = q s"
    by (simp_all add: set_finished_def)
  with run_finished [of "set_finished s" cs] show ?thesis by simp
qed

theorem drain_to_stop_witness:
  "run [Pop, Push 3, Pop, Pop, Pop] (set_finished \<lparr>q = [1, 2 :: nat], max_size = 2, finished = False\<rparr>)
     = Some ([PopRet (Some 1), PushRet, PopRet (Some 2), PopRet None, PopRet None],
             \<lparr>q = [], max_size = 2, finished = True\<rparr>)"
  using drain_to_stop [of "[Pop, Push 3, Pop, Pop, Pop]" "\<lparr>q = [1, 2 :: nat], max_size = 2, finished = False\<rparr>"]
  by (simp add: set_finished_def push_def pop_def)

subsection \<open>The capacity bound\<close>

lemma call_op_capacity:
  assumes "call_op c s = Returns r s'" and "length (q s) \<le> max_size s"
  shows "length (q s') \<le> max_size s' \<and> max_size s' = max_size s"
proof (cases c)
  case (Push x)
  with assms show ?thesis by (auto simp: push_def split: if_splits)
next
  case Pop
  with assms show ?thesis by (auto simp: pop_def split: if_splits)
next
  case SetFinished
  with assms show ?thesis by (auto simp: set_finished_def)
qed

lemma run_capacity:
  "run cs s = Some (rs, s') \<Longrightarrow> length (q s) \<le> max_size s \<Longrightarrow>
   length (q s') \<le> max_size s' \<and> max_size s' = max_size s"
proof (induction cs arbitrary: s rs)
  case Nil
  then show ?case by simp
next
  case (Cons c cs)
  from Cons.prems(1) obtain r s1 rs1 where
    st: "call_op c s = Returns r s1" "run cs s1 = Some (rs1, s')"
    by (auto split: call.splits option.splits)
  from call_op_capacity [OF st(1) Cons.prems(2)] Cons.IH [OF st(2)] show ?case
    by simp
qed

text \<open>
  C10.  The constructor takes capacity 0 as any other value.  In every state that a
  history of completed calls reaches from \<open>ThreadSafeQueue(0)\<close> the queue is empty, and
  a \<open>push\<close> there waits while \<open>finished\<close> is false and returns without a change of
  state once it is true.
\<close>

theorem capacity_zero_never_enqueues:
  assumes "run cs (ThreadSafeQueue 0) = Some (rs, s)"
  shows "ThreadSafeQueue 0 = \<lparr>q = [], max_size = 0, finished = False\<rparr>
         \<and> q s = [] \<and> push x s = (if finished s then Returns () s else Waits)"
proof -
  have "length (q (ThreadSafeQueue 0 :: 'a tsq)) \<le> max_size (ThreadSafeQueue 0 :: 'a tsq)"
    by (simp add: ThreadSafeQueue_def)
  from run_capacity [OF assms this] have "q s = []" "max_size s = 0"
    by (auto simp: ThreadSafeQueue_def)
  then show ?thesis by (simp add: ThreadSafeQueue_def push_def)
qed

theorem capacity_zero_never_enqueues_witness:
  "run [SetFinished, Push (5::nat), Pop] (ThreadSafeQueue 0)
     = Some ([SetFinishedRet, PushRet, PopRet None], \<lparr>q = [], max_size = 0, finished = True\<rparr>)
   \<and> push (6::nat) \<lparr>q = [], max_size = 0, finished = True\<rparr>
     = Returns () \<lparr>q = [], max_size = 0, finished = True\<rparr>
   \<and> push (6::nat) (ThreadSafeQueue 0) = Waits"
proof -
  have r: "run [SetFinished, Push (5::nat), Pop] (ThreadSafeQueue 0)
     = Some ([SetFinishedRet, PushRet, PopRet None], \<lparr>q = [], max_size = 0, finished = True\<rparr>)"
    by (simp add: ThreadSafeQueue_def set_finished_def push_def pop_def)
  have e: "run [] (ThreadSafeQueue 0 :: nat tsq) = Some ([], ThreadSafeQueue 0)"
    by simp
  from capacity_zero_never_enqueues [OF r, of 6] capacity_zero_never_enqueues [OF e, of 6] r
  show ?thesis by (simp add: ThreadSafeQueue_def)
qed

text \<open>
  C4 as stated fails: \<open>push\<close> is declared \<open>void\<close>, and on a finished queue it returns
  what it returns after an append; no failure reaches the caller.
\<close>

theorem push_closed_failure_counterexample:
  "push (7::nat) \<lparr>q = [1], max_size = 3, finished = True\<rparr>
     = Returns () \<lparr>q = [1], max_size = 3, finished = True\<rparr>
   \<and> push (7::nat) \<lparr>q = [1], max_size = 3, finished = False\<rparr>
     = Returns () \<lparr>q = [1, 7], max_size = 3, finished = False\<rparr>"
  by (simp add: push_def)

text \<open>
  C4, amended.  A \<open>push\<close> that meets \<open>finished\<close> (set before the call or while it
  waited) returns normally and leaves the queue as it was; a \<open>push\<close> on a queue that is
  neither finished nor full appends the item at the tail and returns.
\<close>

theorem push_closed_or_open:
  "(finished s \<longrightarrow> push x s = Returns () s)
   \<and> (\<not> finished s \<and> length (q s) < max_size s \<longrightarrow> push x s = Returns () (s\<lparr>q := q s @ [x]\<rparr>))"
  by (simp add: push_def)

theorem push_closed_or_open_witness:
  "push (7::nat) \<lparr>q = [1], max_size = 1, finished = True\<rparr>
     = Returns () \<lparr>q = [1], max_size = 1, finished = True\<rparr>
   \<and> push (7::nat) \<lparr>q = [1], max_size = 3, finished = False\<rparr>
     = Returns () \<lparr>q = [1, 7], max_size = 3, finished = False\<rparr>"
  using push_closed_or_open [of "\<lparr>q = [1::nat], max_size = 1, finished = True\<rparr>" 7]
        push_closed_or_open [of "\<lparr>q = [1::nat], max_size = 3, finished = False\<rparr>" 7]
  by simp


section \<open>Properties of the channel\<close>

lemma chan_call_consumed:
  "state c = Ready r \<Longrightarrow> consumed c \<Longrightarrow>
   chan_call x c = Returns (if x = Get then GetRet (Inl AlreadyConsumed) else SetRet (Some AlreadySet)) c"
  by (cases x) (simp_all add: set_value_def set_error_def get_def)

lemma chan_call_ready:
  "state c = Ready r \<Longrightarrow> \<not> consumed c \<Longrightarrow>
   chan_call x c =
     (if x = Get then Returns (GetRet (Inr r)) (c\<lparr>consumed := True\<rparr>)
      else Returns (SetRet (Some AlreadySet)) c)"
  by (cases x) (simp_all add: set_value_def set_error_def get_def)

lemma chan_call_fresh:
  "chan_call (set_op r) new_channel = Returns (SetRet None) (ready r)"
  by (cases r) (simp_all add: set_value_def set_error_def new_channel_def ready_def)

lemma chan_run_consumed:
  assumes "state c = Ready r" and "consumed c"
  shows "\<exists>rs. chan_run xs c = Some (rs, c) \<and> length rs = length xs
           \<and> (\<forall>k<length xs. rs ! k =
                 (if xs ! k = Get then GetRet (Inl AlreadyConsumed) else SetRet (Some AlreadySet)))"
proof (induction xs)
  case Nil
  show ?case by simp
next
  case (Cons x xs)
  then obtain rs where rs: "chan_run xs c = Some (rs, c)" "length rs = length xs"
      "\<forall>k<length xs. rs ! k =
         (if xs ! k = Get then GetRet (Inl AlreadyConsumed) else SetRet (Some AlreadySet))"
    by blast
  let ?r = "if x = Get then GetRet (Inl AlreadyConsumed) else SetRet (Some AlreadySet)"
  have "chan_run (x # xs) c = Some (?r # rs, c)"
    using chan_call_consumed [OF assms, of x] rs(1) by simp
  moreover have "length (?r # rs) = length (x # xs)" using rs(2) by simp
  moreover have "(?r # rs) ! k =
      (if (x # xs) ! k = Get then GetRet (Inl AlreadyConsumed) else SetRet (Some AlreadySet))"
    if "k < length (x # xs)" for k
    using that rs(3) by (cases k) simp_all
  ultimately show ?case by blast
qed

lemma chan_run_ready:
  assumes "state c = Ready r" and "\<not> consumed c"
  shows "\<exists>rs c'. chan_run xs c = Some (rs, c') \<and> length rs = length xs
           \<and> state c' = Ready r \<and> consumed c' = (Get \<in> set xs)
           \<and> (\<forall>k<length xs. rs ! k =
                 (if xs ! k = Get
                  then (if Get \<in> set (take k xs) then GetRet (Inl AlreadyConsumed)
                        else GetRet (Inr r))
                  else SetRet (Some AlreadySet)))"
proof (induction xs)
  case Nil
  show ?case using assms by simp
next
  case (Cons x xs)
  show ?case
  proof (cases "x = Get")
    case True
    let ?c = "c\<lparr>consumed := True\<rparr>"
    have c: "state ?c = Ready r" "consumed ?c" using assms by simp_all
    from chan_run_consumed [OF c, of xs] obtain rs where rs:
      "chan_run xs ?c = Some (rs, ?c)" "length rs = length xs"
      "\<forall>k<length xs. rs ! k =
         (if xs ! k = Get then GetRet (Inl AlreadyConsumed) else SetRet (Some AlreadySet))"
      by blast
    have "chan_run (x # xs) c = Some (GetRet (Inr r) # rs, ?c)"
      using chan_call_ready [OF assms, of x] True rs(1) by simp
    moreover have "length (GetRet (Inr r) # rs) = length (x # xs)" using rs(2) by simp
    moreover have "state ?c = Ready r \<and> consumed ?c = (Get \<in> set (x # xs))"
      using c True by simp
    moreover have "(GetRet (Inr r) # rs) ! k =
        (if (x # xs) ! k = Get
         then (if Get \<in> set (take k (x # xs)) then GetRet (Inl AlreadyConsumed)
               else GetRet (Inr r))
         else SetRet (Some AlreadySet))"
      if "k < length (x # xs)" for k
      using that rs(3) True by (cases k) simp_all
    ultimately show ?thesis by blast
  next
    case False
    from Cons obtain rs c' where rs: "chan_run xs c = Some (rs, c')" "length rs = length xs"
      "state c' = Ready r" "consumed c' = (Get \<in> set xs)"
      "\<forall>k<length xs. rs ! k =
         (if xs ! k = Get
          then (if Get \<in> set (take k xs) then GetRet (Inl AlreadyConsumed) else GetRet (Inr r))
          else SetRet (Some AlreadySet))"
      by blast
    have "chan_run (x # xs) c = Some (SetRet (Some AlreadySet) # rs, c')"
      using chan_call_ready [OF assms, of x] False rs(1) by simp
    moreover have "length (SetRet (Some AlreadySet) # rs) = length (x # xs)" using rs(2) by simp
    moreover have "state c' = Ready r \<and> consumed c' = (Get \<in> set (x # xs))"
      using rs(3,4) False by auto
    moreover have "(SetRet (Some AlreadySet) # rs) ! k =
        (if (x # xs) ! k = Get
         then (if Get \<in> set (take k (x # xs)) then GetRet (Inl AlreadyConsumed)
               else GetRet (Inr r))
         else SetRet (Some AlreadySet))"
      if "k < length (x # xs)" for k
      using that rs(5) False by (cases k) auto
    ultimately show ?thesis by blast
  qed
qed

lemma sum_loop_bounded:
  "- (2 ^ 63) \<le> acc - int (length data) * 2 ^ 31 \<Longrightarrow>
   acc + int (length data) * 2 ^ 31 < 2 ^ 63 \<Longrightarrow>
   sum_loop acc data = Some (acc + sum_list (map sint data))
   \<and> - (2 ^ 63) \<le> acc + sum_list (map sint data) \<and> acc + sum_list (map sint data) < 2 ^ 63"
proof (induction data arbitrary: acc)
  case Nil
  then show ?case by simp
next
  case (Cons val data)
  have lo: "- (2 ^ 31) \<le> sint val" using sint_ge [of val] by simp
  have hi: "sint val < 2 ^ 31" using sint_lt [of val] by simp
  from Cons.prems lo hi have a: "- (2 ^ 63) \<le> (acc + sint val) - int (length data) * 2 ^ 31"
    by (simp add: algebra_simps)
  from Cons.prems lo hi have b: "(acc + sint val) + int (length data) * 2 ^ 31 < 2 ^ 63"
    by (simp add: algebra_simps)
  have x: "0 \<le> int (length data) * 2 ^ 31" by simp
  from a b x have r: "- (2 ^ 63) \<le> acc + sint val \<and> acc + sint val < 2 ^ 63"
    by linarith
  from Cons.IH [OF a b] r show ?case by (simp add: add.assoc)
qed

lemma calculate_sum_fresh:
  assumes "length data < 2 ^ 32"
  shows "calculate_sum data new_channel
           = Some (Inr (ready (Inr (word_of_int (sum_list (map sint data))))))
         \<and> sint (word_of_int (sum_list (map sint data)) :: 64 word) = sum_list (map sint data)"
proof -
  from assms have "int (length data) < 2 ^ 32"
    by (metis of_nat_less_iff of_nat_numeral of_nat_power)
  then have "int (length data) * 2 ^ 31 < 2 ^ 63" by simp
  with sum_loop_bounded [of 0 data]
  have s: "sum_loop 0 data = Some (sum_list (map sint data))"
          "- (2 ^ 63) \<le> sum_list (map sint data)" "sum_list (map sint data) < 2 ^ 63"
    by simp_all
  have "sint (word_of_int (sum_list (map sint data)) :: 64 word) = sum_list (map sint data)"
    using s(2,3) by (simp add: sint_sbintrunc' signed_take_bit_int_eq_self)
  with s(1) show ?thesis
    by (simp add: calculate_sum_def set_value_def new_channel_def ready_def)
qed


lemma risky_worker_fresh: "risky_worker input new_channel = Inr (ready (risky_body input))"
  by (simp add: risky_worker_def new_channel_def ready_def set_value_def set_error_def
      split: sum.splits)

text \<open>
  C7.  One-shot channel.  On a fresh channel a \<open>get\<close> waits.  After the first
  \<open>set_*\<close> call, which succeeds, every call completes: every later \<open>set_*\<close> call
  fails with \<open>AlreadySet\<close>, the first \<open>get\<close> returns the outcome that the first
  \<open>set_*\<close> stored, and every later \<open>get\<close> fails with \<open>AlreadyConsumed\<close>.  The two
  workers of the source, given a fresh promise, store the outcome of their
  computation in it (the sum of fewer than \<open>2^32\<close> elements is a \<open>long long\<close>), and
  the \<open>get\<close> of the future returns that outcome.
\<close>

theorem one_shot_channel:
  "chan_run (Get # xs) new_channel = None
   \<and> (\<exists>rs c. chan_run (set_op r # xs) new_channel = Some (SetRet None # rs, c)
         \<and> length rs = length xs \<and> state c = Ready r \<and> consumed c = (Get \<in> set xs)
         \<and> (\<forall>k<length xs. rs ! k =
               (if xs ! k = Get
                then (if Get \<in> set (take k xs) then GetRet (Inl AlreadyConsumed)
                      else GetRet (Inr r))
                else SetRet (Some AlreadySet))))
   \<and> get (ready r) = Returns (Inr r) ((ready r)\<lparr>consumed := True\<rparr>)
   \<and> risky_worker input new_channel = Inr (ready (risky_body input))
   \<and> (length data < 2 ^ 32 \<longrightarrow>
        calculate_sum data new_channel
          = Some (Inr (ready (Inr (word_of_int (sum_list (map sint data))))))
        \<and> sint (word_of_int (sum_list (map sint data)) :: 64 word) = sum_list (map sint data))"
proof -
  have a: "chan_run (Get # xs) (new_channel :: 'a channel) = None"
    by (simp add: get_def new_channel_def)
  have "state (ready r) = Ready r" "\<not> consumed (ready r)"
    by (simp_all add: ready_def)
  from chan_run_ready [OF this, of xs] obtain rs c where
    rs: "chan_run xs (ready r) = Some (rs, c)" "length rs = length xs" "state c = Ready r"
        "consumed c = (Get \<in> set xs)"
        "\<forall>k<length xs. rs ! k =
               (if xs ! k = Get
                then (if Get \<in> set (take k xs) then GetRet (Inl AlreadyConsumed)
                      else GetRet (Inr r))
                else SetRet (Some AlreadySet))"
    by blast
  have "chan_run (set_op r # xs) new_channel = Some (SetRet None # rs, c)"
    using rs(1) by (simp add: chan_call_fresh)
  with rs have b: "\<exists>rs c. chan_run (set_op r # xs) new_channel = Some (SetRet None # rs, c)
         \<and> length rs = length xs \<and> state c = Ready r \<and> consumed c = (Get \<in> set xs)
         \<and> (\<forall>k<length xs. rs ! k =
               (if xs ! k = Get
                then (if Get \<in> set (take k xs) then GetRet (Inl AlreadyConsumed)
                      else GetRet (Inr r))
                else SetRet (Some AlreadySet)))"
    by blast
  have g: "get (ready r) = Returns (Inr r) ((ready r)\<lparr>consumed := True\<rparr>)"
    by (simp add: get_def ready_def)
  from a b g risky_worker_fresh [of input] calculate_sum_fresh [of data] show ?thesis
    by blast
qed

theorem one_shot_channel_witness:
  "chan_run [SetError (runtime_error ''boom''), SetValue 5, Get, Get, SetError (runtime_error ''late'')]
       (new_channel :: nat channel)
     = Some ([SetRet None, SetRet (Some AlreadySet), GetRet (Inr (Inl (runtime_error ''boom''))),
              GetRet (Inl AlreadyConsumed), SetRet (Some AlreadySet)],
             \<lparr>state = Ready (Inl (runtime_error ''boom'')), consumed = True\<rparr>)
   \<and> chan_run [Get, SetValue (5::nat)] new_channel = None
   \<and> risky_worker 7 new_channel = Inr (ready (Inr ''Processed input 7''))
   \<and> risky_worker (- 5) new_channel = Inr (ready (Inl (invalid_argument ''Input cannot be negative'')))
   \<and> calculate_sum [1, 2, 3, 4, 5, 6, 7, 8, 9, 10] new_channel = Some (Inr (ready (Inr 55)))"
proof -
  let ?xs = "[SetValue 5, Get, Get, SetError (runtime_error ''late'')] :: nat chan_op list"
  let ?r = "Inl (runtime_error ''boom'') :: exn + nat"
  let ?d = "[1, 2, 3, 4, 5, 6, 7, 8, 9, 10] :: 32 word list"
  have l: "length ?d < 2 ^ 32" by simp
  from one_shot_channel [of ?xs ?r 7 ?d] l obtain rs c where
    rs: "chan_run (set_op ?r # ?xs) new_channel = Some (SetRet None # rs, c)"
        "length rs = length ?xs" "state c = Ready ?r" "consumed c = (Get \<in> set ?xs)"
        "\<forall>k<length ?xs. rs ! k =
               (if ?xs ! k = Get
                then (if Get \<in> set (take k ?xs) then GetRet (Inl AlreadyConsumed)
                      else GetRet (Inr ?r))
                else SetRet (Some AlreadySet))"
    and w: "risky_worker 7 new_channel = Inr (ready (risky_body 7))"
    and cs: "calculate_sum ?d new_channel
          = Some (Inr (ready (Inr (word_of_int (sum_list (map sint ?d))))))"
    by blast
  from rs(2) obtain r0 r1 r2 r3 where rs4: "rs = [r0, r1, r2, r3]"
    by (auto simp: length_Suc_conv)
  from rs(5) have "rs ! 0 = SetRet (Some AlreadySet)" "rs ! 1 = GetRet (Inr ?r)"
      "rs ! 2 = GetRet (Inl AlreadyConsumed)" "rs ! 3 = SetRet (Some AlreadySet)"
    by simp_all
  with rs4 have rsv: "rs = [SetRet (Some AlreadySet), GetRet (Inr ?r),
      GetRet (Inl AlreadyConsumed), SetRet (Some AlreadySet)]"
    by simp
  have cv: "c = \<lparr>state = Ready ?r, consumed = True\<rparr>"
    using rs(3,4) by (cases c) simp
  have d: "digits 7 = ''7''"
    by (simp add: digits.simps)
  have sm: "sum_list (map sint ?d) = 55" by simp
  from one_shot_channel [of "[SetValue (5::nat)]" ?r "- 5" ?d]
  have "chan_run [Get, SetValue (5::nat)] new_channel = None"
    and "risky_worker (- 5) new_channel = Inr (ready (risky_body (- 5)))"
    by blast+
  with rs(1) rsv cv w cs d sm show ?thesis
    by (simp add: risky_body_def to_string_def)
qed

section \<open>Properties of the pool\<close>

subsection \<open>Submission\<close>

text \<open>
  C5 as stated fails for \<open>enqueue\<close>: on a stopped pool it writes a warning and returns
  normally (\<open>Inr\<close>), where \<open>enqueue_task\<close> throws.
\<close>

theorem enqueue_stopped_counterexample:
  "enqueue None (destructor_begin (SimpleThreadPool 1 :: nat pool))
     = Inr \<lparr>workers = [Looping], tasks = [], stop = True, shared = Map.empty, next_h = 0,
            cerr = [''ThreadPool: Warning! Enqueue on stopped pool.''], dtor = Some 0,
            terminated = False, completed = []\<rparr>"
  by (simp add: enqueue_def destructor_begin_def SimpleThreadPool_def)

text \<open>
  C5, amended.  When \<open>stop\<close> is set, \<open>enqueue\<close> returns normally after a warning on
  \<open>std::cerr\<close> and \<open>enqueue_task\<close> throws \<open>std::runtime_error\<close>; neither changes \<open>tasks\<close>
  or the shared states.  When \<open>stop\<close> is not set, \<open>enqueue\<close> appends the task, and
  \<open>enqueue_task\<close> appends the wrapped task and returns the future of a fresh, pending
  shared state.
\<close>

theorem submit_by_state:
  "(stop s \<longrightarrow>
      enqueue f s = Inr (s\<lparr>cerr := cerr s @ [''ThreadPool: Warning! Enqueue on stopped pool.'']\<rparr>)
      \<and> enqueue_task g s = Inl (runtime_error ''Enqueue on stopped ThreadPool'')
      \<and> map_option tasks (fire (Enqueue f) s) = map_option tasks (fire (EnqueueTask g) s)
      \<and> (\<not> terminated s \<longrightarrow> map_option tasks (fire (Enqueue f) s) = Some (tasks s)))
   \<and> (\<not> stop s \<longrightarrow>
      enqueue f s = Inr (s\<lparr>tasks := tasks s @ [Fn f]\<rparr>)
      \<and> enqueue_task g s =
          Inr (next_h s,
               s\<lparr>shared := (shared s)(next_h s \<mapsto> new_channel), next_h := Suc (next_h s),
                 tasks := tasks s @ [Packaged (next_h s) g]\<rparr>))"
  by (simp add: enqueue_def enqueue_task_def fire_def)

theorem submit_by_state_witness:
  "enqueue_task (Inr (4::nat)) (destructor_begin (SimpleThreadPool 1))
     = Inl (runtime_error ''Enqueue on stopped ThreadPool'')
   \<and> enqueue None (SimpleThreadPool 1 :: nat pool) = Inr ((SimpleThreadPool 1)\<lparr>tasks := [Fn None]\<rparr>)
   \<and> enqueue_task (Inr (4::nat)) (SimpleThreadPool 1)
     = Inr (0, (SimpleThreadPool 1)\<lparr>shared := [0 \<mapsto> new_channel], next_h := 1,
                                     tasks := [Packaged 0 (Inr 4)]\<rparr>)"
  using submit_by_state [of "destructor_begin (SimpleThreadPool 1 :: nat pool)" None "Inr 4"]
        submit_by_state [of "SimpleThreadPool 1 :: nat pool" None "Inr 4"]
  by (simp add: destructor_begin_def SimpleThreadPool_def)

subsection \<open>No bound on the pending tasks of the pool\<close>

lemma exec_enqueues:
  "\<not> stop s \<Longrightarrow> \<not> terminated s \<Longrightarrow>
   exec (replicate n (Enqueue f)) s = Some (s\<lparr>tasks := tasks s @ replicate n (Fn f)\<rparr>)"
proof (induction n arbitrary: s)
  case 0
  then show ?case by simp
next
  case (Suc n)
  let ?s = "s\<lparr>tasks := tasks s @ [Fn f]\<rparr>"
  have "fire (Enqueue f) s = Some ?s"
    using Suc.prems by (simp add: fire_def enqueue_def)
  moreover have "exec (replicate n (Enqueue f)) ?s = Some (?s\<lparr>tasks := tasks ?s @ replicate n (Fn f)\<rparr>)"
    by (rule Suc.IH) (use Suc.prems in simp_all)
  ultimately show ?case by simp
qed

text \<open>
  C2 as stated fails for the pool: \<open>tasks\<close> is a plain \<open>std::queue\<close> and \<open>enqueue\<close> never
  waits.  With two workers that have not yet taken a task, three calls of \<open>enqueue\<close>
  complete and leave three pending tasks, more than a bound of 1 (or 2) would allow.
\<close>

theorem pool_unbounded_counterexample:
  "exec [Enqueue None, Enqueue None, Enqueue None] (SimpleThreadPool 2 :: nat pool)
     = Some ((SimpleThreadPool 2)\<lparr>tasks := [Fn None, Fn None, Fn None]\<rparr>)
   \<and> length (tasks ((SimpleThreadPool 2 :: nat pool)\<lparr>tasks := [Fn None, Fn None, Fn None]\<rparr>)) = 3"
  by (simp add: fire_def enqueue_def SimpleThreadPool_def)

text \<open>
  C2, amended.  In every state that a history of completed calls reaches from
  \<open>ThreadSafeQueue(N)\<close> the queue holds at most \<open>N\<close> items, and a \<open>push\<close> that meets \<open>N\<close>
  items does not append: it waits while \<open>finished\<close> is false.  The pool has no such
  bound: \<open>enqueue\<close> on a running pool always appends, and any number \<open>n\<close> of calls
  leaves \<open>n\<close> pending tasks.
\<close>

theorem queue_bounded_pool_not:
  "(run cs (ThreadSafeQueue N) = Some (rs, s) \<longrightarrow>
      length (q s) \<le> N \<and> max_size s = N
      \<and> (length (q s) = N \<longrightarrow> push x s = (if finished s then Returns () s else Waits)))
   \<and> exec (replicate n (Enqueue f)) (SimpleThreadPool w)
       = Some ((SimpleThreadPool w)\<lparr>tasks := replicate n (Fn f)\<rparr>)"
proof -
  have "length (q s) \<le> N \<and> max_size s = N
      \<and> (length (q s) = N \<longrightarrow> push x s = (if finished s then Returns () s else Waits))"
    if r: "run cs (ThreadSafeQueue N) = Some (rs, s)"
  proof -
    have "length (q (ThreadSafeQueue N :: 'a tsq)) \<le> max_size (ThreadSafeQueue N :: 'a tsq)"
      by (simp add: ThreadSafeQueue_def)
    from run_capacity [OF r this] show ?thesis
      by (simp add: ThreadSafeQueue_def push_def)
  qed
  moreover have "exec (replicate n (Enqueue f)) (SimpleThreadPool w)
       = Some ((SimpleThreadPool w)\<lparr>tasks := replicate n (Fn f)\<rparr>)"
    using exec_enqueues [of "SimpleThreadPool w" n f] by (simp add: SimpleThreadPool_def)
  ultimately show ?thesis by blast
qed

theorem queue_bounded_pool_not_witness:
  "run [Push 1, Push (2::nat)] (ThreadSafeQueue 2)
     = Some ([PushRet, PushRet], \<lparr>q = [1, 2], max_size = 2, finished = False\<rparr>)
   \<and> push (3::nat) \<lparr>q = [1, 2], max_size = 2, finished = False\<rparr> = Waits
   \<and> run [Push 1, Push (2::nat), Push 3] (ThreadSafeQueue 2) = None"
proof -
  have r: "run [Push 1, Push (2::nat)] (ThreadSafeQueue 2)
     = Some ([PushRet, PushRet], \<lparr>q = [1, 2], max_size = 2, finished = False\<rparr>)"
    by (simp add: ThreadSafeQueue_def push_def)
  from queue_bounded_pool_not [of "[Push 1, Push 2]" 2 "[PushRet, PushRet]"
      "\<lparr>q = [1, 2], max_size = 2, finished = False\<rparr>" 3] r
  show ?thesis by (simp add: ThreadSafeQueue_def push_def)
qed

subsection \<open>The steps of the pool\<close>

lemma held_take:
  "i < length ws \<Longrightarrow> ws ! i = Looping \<Longrightarrow>
   mset (held (ws[i := Holding t])) = add_mset t (mset (held ws))"
proof (induction ws arbitrary: i)
  case Nil
  then show ?case by simp
next
  case (Cons w ws)
  then show ?case by (cases i; cases w) simp_all
qed

lemma held_exit:
  "i < length ws \<Longrightarrow> ws ! i = Looping \<Longrightarrow> held (ws[i := Exited]) = held ws"
proof (induction ws arbitrary: i)
  case Nil
  then show ?case by simp
next
  case (Cons w ws)
  then show ?case by (cases i; cases w) simp_all
qed

lemma held_run:
  "i < length ws \<Longrightarrow> ws ! i = Holding t \<Longrightarrow>
   mset (held ws) = add_mset t (mset (held (ws[i := Looping])))"
proof (induction ws arbitrary: i)
  case Nil
  then show ?case by simp
next
  case (Cons w ws)
  then show ?case by (cases i; cases w) simp_all
qed


lemma fire_cases [consumes 1, case_names enq enq_stopped enqt enqt_stopped take exit ran threw destroy join]:
  assumes "fire e s = Some s'"
  obtains
    f where "e = Enqueue f" "\<not> stop s" "s' = s\<lparr>tasks := tasks s @ [Fn f]\<rparr>"
  | f where "e = Enqueue f" "stop s"
      "s' = s\<lparr>cerr := cerr s @ [''ThreadPool: Warning! Enqueue on stopped pool.'']\<rparr>"
  | f where "e = EnqueueTask f" "\<not> stop s"
      "s' = s\<lparr>shared := (shared s)(next_h s \<mapsto> new_channel), next_h := Suc (next_h s),
               tasks := tasks s @ [Packaged (next_h s) f]\<rparr>"
  | f where "e = EnqueueTask f" "stop s" "s' = s"
  | i t ts where "e = Take i" "i < length (workers s)" "workers s ! i = Looping"
      "tasks s = t # ts" "s' = s\<lparr>workers := (workers s)[i := Holding t], tasks := ts\<rparr>"
  | i where "e = Take i" "i < length (workers s)" "workers s ! i = Looping"
      "stop s" "tasks s = []" "s' = s\<lparr>workers := (workers s)[i := Exited]\<rparr>"
  | i t m where "e = Run i" "i < length (workers s)" "workers s ! i = Holding t"
      "call_task t (shared s) = Inr m"
      "s' = s\<lparr>workers := (workers s)[i := Looping], shared := m, completed := completed s @ [t]\<rparr>"
  | i t ex where "e = Run i" "i < length (workers s)" "workers s ! i = Holding t"
      "call_task t (shared s) = Inl ex" "s' = s\<lparr>terminated := True\<rparr>"
  | "e = Destroy" "dtor s = None" "s' = s\<lparr>stop := True, dtor := Some 0\<rparr>"
  | k where "e = Join" "dtor s = Some k" "k < length (workers s)" "workers s ! k = Exited"
      "s' = s\<lparr>dtor := Some (Suc k)\<rparr>"
proof (cases e)
  case (Enqueue f)
  with assms that(1,2) [of f] show ?thesis
    by (cases "stop s") (auto simp: fire_def enqueue_def split: if_splits)
next
  case (EnqueueTask f)
  with assms that(3,4) [of f] show ?thesis
    by (cases "stop s") (auto simp: fire_def enqueue_task_def split: if_splits)
next
  case (Take i)
  show ?thesis
  proof (cases "tasks s")
    case Nil
    with assms Take that(6) [of i] show ?thesis
      by (auto simp: fire_def worker_take_def split: if_splits)
  next
    case (Cons t ts)
    with assms Take that(5) [of i t ts] show ?thesis
      by (auto simp: fire_def worker_take_def split: if_splits)
  qed
next
  case (Run i)
  with assms obtain t where t: "i < length (workers s)" "workers s ! i = Holding t"
      "s' = worker_run i t s"
    by (auto simp: fire_def split: if_splits worker.splits)
  show ?thesis
  proof (cases "call_task t (shared s)")
    case (Inl ex)
    with t Run that(8) [of i t ex] show ?thesis by (simp add: worker_run_def)
  next
    case (Inr m)
    with t Run that(7) [of i t m] show ?thesis by (simp add: worker_run_def)
  qed
next
  case Destroy
  with assms that(9) show ?thesis
    by (auto simp: fire_def destructor_begin_def split: if_splits option.splits)
next
  case Join
  with assms that(10) show ?thesis
    by (auto simp: fire_def destructor_join_def split: if_splits option.splits)
qed

lemma inv_dtor_step:
  assumes "fire e s = Some s'" and "inv_dtor s"
  shows "inv_dtor s'"
  using assms(1)
proof (cases rule: fire_cases)
  case (take i t ts)
  with assms(2) show ?thesis
    by (auto simp: inv_dtor_def nth_list_update split: option.splits)
next
  case (exit i)
  with assms(2) show ?thesis
    by (auto simp: inv_dtor_def nth_list_update split: option.splits)
next
  case (ran i t m)
  with assms(2) show ?thesis
    by (auto simp: inv_dtor_def nth_list_update split: option.splits)
next
  case (join k)
  with assms(2) show ?thesis
    by (auto simp: inv_dtor_def less_Suc_eq split: option.splits)
qed (use assms(2) in \<open>auto simp: inv_dtor_def split: option.splits\<close>)

lemma inv_exit_step:
  assumes "fire e s = Some s'" and "inv_exit s"
  shows "inv_exit s'"
  using assms(1)
proof (cases rule: fire_cases)
  case (take i t ts)
  have "set ((workers s)[i := Holding t]) \<subseteq> insert (Holding t) (set (workers s))"
    by (rule set_update_subset_insert)
  with take assms(2) show ?thesis
    by (auto simp: inv_exit_def)
next
  case (exit i)
  with assms(2) show ?thesis
    by (auto simp: inv_exit_def)
next
  case (ran i t m)
  have "set ((workers s)[i := Looping]) \<subseteq> insert Looping (set (workers s))"
    by (rule set_update_subset_insert)
  with ran assms(2) show ?thesis
    by (auto simp: inv_exit_def)
qed (use assms(2) in \<open>auto simp: inv_exit_def\<close>)


lemma workers_step: "fire e s = Some s' \<Longrightarrow> length (workers s') = length (workers s)"
  by (cases rule: fire_cases) auto

subsection \<open>The shared states of the tasks\<close>

lemma packaged_call_pending:
  "state c = Pending \<Longrightarrow> packaged_call f c = Inr (c\<lparr>state := Ready f\<rparr>)"
  by (cases f) (simp_all add: packaged_call_def set_value_def set_error_def)

lemma packaged_call_ready: "state c = Ready r \<Longrightarrow> packaged_call f c = Inl AlreadySet"
  by (cases f) (simp_all add: packaged_call_def set_value_def set_error_def)

lemma no_other_handle:
  assumes "size (filter_mset (\<lambda>t. handle_of t = Some h) (add_mset (Packaged h f) P)) \<le> 1"
  shows "Packaged h g \<notin># P"
proof
  assume "Packaged h g \<in># P"
  then obtain P' where "P = add_mset (Packaged h g) P'"
    by (blast dest: multi_member_split)
  with assms show False by simp
qed

lemma size_filter_add_le:
  "size (filter_mset p (add_mset t P)) \<le> n \<Longrightarrow> size (filter_mset p P) \<le> n"
  by (cases "p t") simp_all

lemma inv_heap_pending:
  "inv_heap s \<Longrightarrow> Packaged h f \<in># pending s \<Longrightarrow>
   h < next_h s \<and> (\<exists>c. shared s h = Some c \<and> state c = Pending)"
  unfolding inv_heap_def by blast

lemma inv_heap_unique:
  "inv_heap s \<Longrightarrow> size (filter_mset (\<lambda>t. handle_of t = Some h) (pending s)) \<le> 1"
  unfolding inv_heap_def by blast

lemma inv_heap_completed:
  "inv_heap s \<Longrightarrow> Packaged h f \<in> set (completed s) \<Longrightarrow>
   h < next_h s \<and> (\<exists>c. shared s h = Some c \<and> state c = Ready f)"
  unfolding inv_heap_def by blast

lemma inv_heapI:
  assumes "\<And>h f. Packaged h f \<in># pending s \<Longrightarrow>
             h < next_h s \<and> (\<exists>c. shared s h = Some c \<and> state c = Pending)"
    and "\<And>h. size (filter_mset (\<lambda>t. handle_of t = Some h) (pending s)) \<le> 1"
    and "\<And>h f. Packaged h f \<in> set (completed s) \<Longrightarrow>
             h < next_h s \<and> (\<exists>c. shared s h = Some c \<and> state c = Ready f)"
  shows "inv_heap s"
  unfolding inv_heap_def using assms by blast

lemma inv_heap_same:
  assumes "inv_heap s" and "pending s' = pending s" and "shared s' = shared s"
    and "next_h s' = next_h s" and "completed s' = completed s"
  shows "inv_heap s'"
  using assms unfolding inv_heap_def by simp

lemma inv_heap_step:
  assumes "fire e s = Some s'" and "inv_heap s"
  shows "inv_heap s'"
  using assms(1)
proof (cases rule: fire_cases)
  case (enq f)
  then have p: "pending s' = add_mset (Fn f) (pending s)" by (simp add: pending_def)
  show ?thesis
  proof (rule inv_heapI)
    fix h g
    assume "Packaged h g \<in># pending s'"
    with p have "Packaged h g \<in># pending s" by simp
    from inv_heap_pending [OF assms(2) this] enq show
      "h < next_h s' \<and> (\<exists>c. shared s' h = Some c \<and> state c = Pending)" by simp
  next
    fix h
    from inv_heap_unique [OF assms(2), of h] p
    show "size (filter_mset (\<lambda>t. handle_of t = Some h) (pending s')) \<le> 1" by simp
  next
    fix h g
    assume "Packaged h g \<in> set (completed s')"
    with enq have "Packaged h g \<in> set (completed s)" by simp
    from inv_heap_completed [OF assms(2) this] enq show
      "h < next_h s' \<and> (\<exists>c. shared s' h = Some c \<and> state c = Ready g)" by simp
  qed
next
  case (enq_stopped f)
  with assms(2) show ?thesis
    by - (rule inv_heap_same [of s], simp_all add: pending_def)
next
  case (enqt f)
  then have p: "pending s' = add_mset (Packaged (next_h s) f) (pending s)"
    by (simp add: pending_def)
  have fresh: "handle_of t \<noteq> Some (next_h s)" if "t \<in># pending s" for t
  proof (cases t)
    case (Fn x)
    then show ?thesis by simp
  next
    case (Packaged h g)
    with that inv_heap_pending [OF assms(2), of h g] show ?thesis by simp
  qed
  show ?thesis
  proof (rule inv_heapI)
    fix h g
    assume "Packaged h g \<in># pending s'"
    with p consider "h = next_h s" | "Packaged h g \<in># pending s" by auto
    then show "h < next_h s' \<and> (\<exists>c. shared s' h = Some c \<and> state c = Pending)"
    proof cases
      case 1
      with enqt show ?thesis by (simp add: new_channel_def)
    next
      case 2
      from inv_heap_pending [OF assms(2) this] enqt show ?thesis by auto
    qed
  next
    fix h
    show "size (filter_mset (\<lambda>t. handle_of t = Some h) (pending s')) \<le> 1"
    proof (cases "h = next_h s")
      case True
      from fresh have "filter_mset (\<lambda>t. handle_of t = Some (next_h s)) (pending s) = {#}"
        by simp
      with True p show ?thesis by simp
    next
      case False
      with inv_heap_unique [OF assms(2), of h] p show ?thesis by simp
    qed
  next
    fix h g
    assume "Packaged h g \<in> set (completed s')"
    with enqt have "Packaged h g \<in> set (completed s)" by simp
    from inv_heap_completed [OF assms(2) this] enqt show
      "h < next_h s' \<and> (\<exists>c. shared s' h = Some c \<and> state c = Ready g)" by auto
  qed
next
  case (enqt_stopped f)
  with assms(2) show ?thesis by simp
next
  case (take i t ts)
  with assms(2) show ?thesis
    by - (rule inv_heap_same [of s], simp_all add: pending_def held_take)
next
  case (exit i)
  with assms(2) show ?thesis
    by - (rule inv_heap_same [of s], simp_all add: pending_def held_exit)
next
  case (threw i t ex)
  with assms(2) show ?thesis
    by - (rule inv_heap_same [of s], simp_all add: pending_def)
next
  case destroy
  with assms(2) show ?thesis
    by - (rule inv_heap_same [of s], simp_all add: pending_def)
next
  case (join k)
  with assms(2) show ?thesis
    by - (rule inv_heap_same [of s], simp_all add: pending_def)
next
  case (ran i t m)
  then have p: "pending s = add_mset t (pending s')"
    by (simp add: pending_def held_run [of i "workers s" t])
  have B: "size (filter_mset (\<lambda>t. handle_of t = Some h') (pending s')) \<le> 1" for h'
  proof -
    from inv_heap_unique [OF assms(2), of h']
    have "size (filter_mset (\<lambda>t. handle_of t = Some h') (add_mset t (pending s'))) \<le> 1"
      by (simp only: p)
    then show ?thesis by (rule size_filter_add_le)
  qed
  show ?thesis
  proof (cases t)
    case (Fn f)
    with ran have m: "m = shared s" by (cases f) simp_all
    show ?thesis
    proof (rule inv_heapI)
      fix h g
      assume "Packaged h g \<in># pending s'"
      with p have "Packaged h g \<in># pending s" by simp
      from inv_heap_pending [OF assms(2) this] ran m show
        "h < next_h s' \<and> (\<exists>c. shared s' h = Some c \<and> state c = Pending)" by simp
    next
      fix h g
      assume "Packaged h g \<in> set (completed s')"
      with ran Fn have "Packaged h g \<in> set (completed s)" by simp
      from inv_heap_completed [OF assms(2) this] ran m show
        "h < next_h s' \<and> (\<exists>c. shared s' h = Some c \<and> state c = Ready g)" by simp
    qed (rule B)
  next
    case (Packaged h f)
    have "Packaged h f \<in># pending s" using p Packaged by simp
    from inv_heap_pending [OF assms(2) this]
    obtain c where c: "h < next_h s" "shared s h = Some c" "state c = Pending"
      by blast
    with ran Packaged have m: "m = (shared s)(h \<mapsto> c\<lparr>state := Ready f\<rparr>)"
      by (simp add: packaged_call_pending)
    from inv_heap_unique [OF assms(2), of h]
    have "size (filter_mset (\<lambda>t. handle_of t = Some h) (add_mset (Packaged h f) (pending s'))) \<le> 1"
      by (simp only: p Packaged)
    then have other: "Packaged h g \<notin># pending s'" for g
      by (rule no_other_handle)
    show ?thesis
    proof (rule inv_heapI)
      fix h' g
      assume in': "Packaged h' g \<in># pending s'"
      with other have "h' \<noteq> h" by auto
      moreover from in' p have "Packaged h' g \<in># pending s" by simp
      from inv_heap_pending [OF assms(2) this]
      have "h' < next_h s \<and> (\<exists>c. shared s h' = Some c \<and> state c = Pending)" .
      ultimately show "h' < next_h s' \<and> (\<exists>c. shared s' h' = Some c \<and> state c = Pending)"
        using ran m by simp
    next
      fix h' g
      assume in': "Packaged h' g \<in> set (completed s')"
      show "h' < next_h s' \<and> (\<exists>c. shared s' h' = Some c \<and> state c = Ready g)"
      proof (cases "Packaged h' g = t")
        case True
        with Packaged c ran m show ?thesis by simp
      next
        case False
        with in' ran have "Packaged h' g \<in> set (completed s)" by simp
        from inv_heap_completed [OF assms(2) this]
        obtain c' where c': "h' < next_h s" "shared s h' = Some c'" "state c' = Ready g"
          by blast
        with c have "h' \<noteq> h" by auto
        with c' ran m show ?thesis by simp
      qed
    qed (rule B)
  qed
qed

subsection \<open>Invariants along a run\<close>

lemma held_replicate_Looping: "held (replicate n Looping) = []"
  by (induction n) simp_all

lemma pool_inv_init: "pool_inv (SimpleThreadPool n)"
  by (simp add: pool_inv_def inv_dtor_def inv_exit_def inv_heap_def pending_def
      SimpleThreadPool_def held_replicate_Looping)

lemma pool_inv_exec: "exec es s = Some s' \<Longrightarrow> pool_inv s \<Longrightarrow> pool_inv s'"
proof (induction es arbitrary: s)
  case Nil
  then show ?case by simp
next
  case (Cons e es)
  from Cons.prems(1) obtain s1 where s1: "fire e s = Some s1" "exec es s1 = Some s'"
    by (auto split: option.splits)
  from Cons.prems(2) s1(1) have "pool_inv s1"
    by (simp add: pool_inv_def inv_dtor_step inv_exit_step inv_heap_step)
  with Cons.IH s1(2) show ?case by blast
qed




lemma held_nth: "i < length ws \<Longrightarrow> ws ! i = Holding t \<Longrightarrow> t \<in> set (held ws)"
proof (induction ws arbitrary: i)
  case Nil
  then show ?case by simp
next
  case (Cons w ws)
  then show ?case by (cases i; cases w) auto
qed

lemma held_pending:
  "i < length (workers s) \<Longrightarrow> workers s ! i = Holding t \<Longrightarrow> t \<in># pending s"
  by (simp add: pending_def held_nth)

lemma completed_step: "fire e s = Some s' \<Longrightarrow> set (completed s) \<subseteq> set (completed s')"
  by (cases rule: fire_cases) auto

lemma completed_exec: "exec es s = Some s' \<Longrightarrow> set (completed s) \<subseteq> set (completed s')"
proof (induction es arbitrary: s)
  case Nil
  then show ?case by simp
next
  case (Cons e es)
  from Cons.prems obtain s1 where s1: "fire e s = Some s1" "exec es s1 = Some s'"
    by (auto split: option.splits)
  from completed_step [OF s1(1)] Cons.IH [OF s1(2)] show ?case by blast
qed

lemma pool_inv_step: "fire e s = Some s' \<Longrightarrow> pool_inv s \<Longrightarrow> pool_inv s'"
  by (simp add: pool_inv_def inv_dtor_step inv_exit_step inv_heap_step)

lemma run_packaged:
  assumes "pool_inv s" and "\<not> terminated s" and "i < length (workers s)"
    and "workers s ! i = Holding (Packaged h f)"
  shows "\<exists>c. shared s h = Some c \<and> state c = Pending
           \<and> fire (Run i) s =
               Some (s\<lparr>workers := (workers s)[i := Looping],
                       shared := (shared s)(h \<mapsto> c\<lparr>state := Ready f\<rparr>),
                       completed := completed s @ [Packaged h f]\<rparr>)"
proof -
  from assms(1) have "inv_heap s" by (simp add: pool_inv_def)
  from inv_heap_pending [OF this held_pending [OF assms(3,4)]]
  obtain c where c: "shared s h = Some c" "state c = Pending" by blast
  then have "worker_run i (Packaged h f) s =
      s\<lparr>workers := (workers s)[i := Looping],
        shared := (shared s)(h \<mapsto> c\<lparr>state := Ready f\<rparr>),
        completed := completed s @ [Packaged h f]\<rparr>"
    by (simp add: worker_run_def packaged_call_pending)
  with assms(2,3,4) c show ?thesis by (simp add: fire_def)
qed

lemma take_run_packaged:
  assumes "pool_inv s" and "\<not> terminated s" and "j < length (workers s)"
    and "workers s ! j = Looping" and "tasks s = Packaged h g # ts"
  shows "\<exists>s'. exec [Take j, Run j] s = Some s' \<and> \<not> terminated s' \<and> workers s' ! j = Looping
           \<and> tasks s' = ts \<and> (\<exists>c. shared s' h = Some c \<and> state c = Ready g)"
proof -
  let ?s1 = "s\<lparr>workers := (workers s)[j := Holding (Packaged h g)], tasks := ts\<rparr>"
  have t: "fire (Take j) s = Some ?s1"
    using assms(2-5) by (simp add: fire_def worker_take_def)
  from pool_inv_step [OF t assms(1)] have inv1: "pool_inv ?s1" .
  have "\<not> terminated ?s1" "j < length (workers ?s1)" "workers ?s1 ! j = Holding (Packaged h g)"
    using assms(2,3) by simp_all
  from run_packaged [OF inv1 this] obtain c where
    r: "fire (Run j) ?s1 =
          Some (?s1\<lparr>workers := (workers ?s1)[j := Looping],
                  shared := (shared ?s1)(h \<mapsto> c\<lparr>state := Ready g\<rparr>),
                  completed := completed ?s1 @ [Packaged h g]\<rparr>)"
    by blast
  let ?s2 = "?s1\<lparr>workers := (workers ?s1)[j := Looping],
                  shared := (shared ?s1)(h \<mapsto> c\<lparr>state := Ready g\<rparr>),
                  completed := completed ?s1 @ [Packaged h g]\<rparr>"
  from t r have "exec [Take j, Run j] s = Some ?s2" by simp
  moreover have "\<not> terminated ?s2 \<and> workers ?s2 ! j = Looping \<and> tasks ?s2 = ts
      \<and> (\<exists>c. shared ?s2 h = Some c \<and> state c = Ready g)"
    using assms(2,3) by simp
  ultimately show ?thesis by blast
qed

subsection \<open>A task that throws\<close>

text \<open>
  C3 as stated fails for a task given to \<open>enqueue\<close>: nothing catches what its call
  throws, the exception leaves the worker's thread function and \<open>std::terminate\<close> is
  called; no later task is taken.
\<close>

theorem plain_task_throws_counterexample:
  "exec [Enqueue (Some (runtime_error ''boom'')), Take 0, Run 0] (SimpleThreadPool 1 :: nat pool)
     = Some \<lparr>workers = [Holding (Fn (Some (runtime_error ''boom'')))], tasks = [], stop = False,
             shared = Map.empty, next_h = 0, cerr = [], dtor = None, terminated = True,
             completed = []\<rparr>
   \<and> exec [Enqueue (Some (runtime_error ''boom'')), Take 0, Run 0, EnqueueTask (Inr 1), Take 0]
        (SimpleThreadPool 1 :: nat pool) = None"
  by (simp add: fire_def enqueue_def enqueue_task_def worker_take_def worker_run_def
      SimpleThreadPool_def)

text \<open>
  C3, amended.  In every state that the pool reaches, a worker that holds a task
  submitted with \<open>enqueue_task\<close> whose function throws calls it without terminating
  the process: the worker is back in its loop, \<open>tasks\<close> and \<open>stop\<close> are as they were,
  and the exception is in the shared state of the future of the task, where it stays
  in every later state.  In every later state a worker in its loop that finds a task
  submitted with \<open>enqueue_task\<close> at the head of the queue takes it and calls it, and
  the future of that task is then ready with the outcome of its own function.  A
  worker that holds a task given to \<open>enqueue\<close> that throws terminates the process
  when it calls it, and no step follows.
\<close>

theorem packaged_task_failure_isolated:
  fixes s :: "'a pool"
  assumes "exec es (SimpleThreadPool n) = Some s" and "\<not> terminated s"
    and "i < length (workers s)"
  shows "(workers s ! i = Holding (Packaged h (Inl e)) \<longrightarrow>
           (\<exists>s1. fire (Run i) s = Some s1 \<and> \<not> terminated s1 \<and> workers s1 ! i = Looping
              \<and> tasks s1 = tasks s \<and> stop s1 = stop s
              \<and> (\<forall>es' s2. exec es' s1 = Some s2 \<longrightarrow>
                    (\<exists>c. shared s2 h = Some c \<and> state c = Ready (Inl e))
                    \<and> (\<forall>j h' g ts.
                          \<not> terminated s2 \<and> j < length (workers s2)
                          \<and> workers s2 ! j = Looping \<and> tasks s2 = Packaged h' g # ts \<longrightarrow>
                          (\<exists>s3. exec [Take j, Run j] s2 = Some s3 \<and> \<not> terminated s3
                             \<and> workers s3 ! j = Looping \<and> tasks s3 = ts
                             \<and> (\<exists>c. shared s3 h' = Some c \<and> state c = Ready g)
                             \<and> (\<exists>c. shared s3 h = Some c \<and> state c = Ready (Inl e)))))))
       \<and> (workers s ! i = Holding (Fn (Some x)) \<longrightarrow>
           fire (Run i) s = Some (s\<lparr>terminated := True\<rparr>)
           \<and> (\<forall>ev. fire ev (s\<lparr>terminated := True\<rparr>) = None))"
proof (intro conjI impI)
  assume hold: "workers s ! i = Holding (Packaged h (Inl e))"
  let ?t = "Packaged h (Inl e) :: 'a task"
  have inv: "pool_inv s" using pool_inv_exec [OF assms(1) pool_inv_init] .
  from run_packaged [OF inv assms(2,3) hold] obtain c where
    f: "fire (Run i) s =
          Some (s\<lparr>workers := (workers s)[i := Looping],
                  shared := (shared s)(h \<mapsto> c\<lparr>state := Ready (Inl e)\<rparr>),
                  completed := completed s @ [?t]\<rparr>)"
    by blast
  let ?s1 = "s\<lparr>workers := (workers s)[i := Looping],
                shared := (shared s)(h \<mapsto> c\<lparr>state := Ready (Inl e)\<rparr>),
                completed := completed s @ [?t]\<rparr>"
  have inv1: "pool_inv ?s1" using pool_inv_step [OF f inv] .
  have done1: "?t \<in> set (completed ?s1)" by simp
  have later: "(\<exists>c. shared s2 h = Some c \<and> state c = Ready (Inl e))
        \<and> (\<forall>j h' g ts.
              \<not> terminated s2 \<and> j < length (workers s2)
              \<and> workers s2 ! j = Looping \<and> tasks s2 = Packaged h' g # ts \<longrightarrow>
              (\<exists>s3. exec [Take j, Run j] s2 = Some s3 \<and> \<not> terminated s3
                 \<and> workers s3 ! j = Looping \<and> tasks s3 = ts
                 \<and> (\<exists>c. shared s3 h' = Some c \<and> state c = Ready g)
                 \<and> (\<exists>c. shared s3 h = Some c \<and> state c = Ready (Inl e))))"
    if ex: "exec es' ?s1 = Some s2" for es' s2
  proof -
    have inv2: "pool_inv s2" using pool_inv_exec [OF ex inv1] .
    have done2: "?t \<in> set (completed s2)" using completed_exec [OF ex] done1 by blast
    have keep: "\<exists>c. shared s' h = Some c \<and> state c = Ready (Inl e)"
      if "pool_inv s'" "?t \<in> set (completed s')" for s' :: "'a pool"
      using that inv_heap_completed [of s' h "Inl e"] by (simp add: pool_inv_def)
    have "\<exists>s3. exec [Take j, Run j] s2 = Some s3 \<and> \<not> terminated s3
                 \<and> workers s3 ! j = Looping \<and> tasks s3 = ts
                 \<and> (\<exists>c. shared s3 h' = Some c \<and> state c = Ready g)
                 \<and> (\<exists>c. shared s3 h = Some c \<and> state c = Ready (Inl e))"
      if j: "\<not> terminated s2 \<and> j < length (workers s2)
              \<and> workers s2 ! j = Looping \<and> tasks s2 = Packaged h' g # ts" for j h' g ts
    proof -
      from take_run_packaged [OF inv2, of j h' g ts] j obtain s3 where
        s3: "exec [Take j, Run j] s2 = Some s3" "\<not> terminated s3" "workers s3 ! j = Looping"
            "tasks s3 = ts" "\<exists>c. shared s3 h' = Some c \<and> state c = Ready g"
        by blast
      have "pool_inv s3" using pool_inv_exec [OF s3(1) inv2] .
      moreover have "?t \<in> set (completed s3)" using completed_exec [OF s3(1)] done2 by blast
      ultimately have "\<exists>c. shared s3 h = Some c \<and> state c = Ready (Inl e)" by (rule keep)
      with s3 show ?thesis by blast
    qed
    with keep [OF inv2 done2] show ?thesis by blast
  qed
  have "\<not> terminated ?s1 \<and> workers ?s1 ! i = Looping \<and> tasks ?s1 = tasks s \<and> stop ?s1 = stop s"
    using assms(2,3) by simp
  with f later show "\<exists>s1. fire (Run i) s = Some s1 \<and> \<not> terminated s1 \<and> workers s1 ! i = Looping
              \<and> tasks s1 = tasks s \<and> stop s1 = stop s
              \<and> (\<forall>es' s2. exec es' s1 = Some s2 \<longrightarrow>
                    (\<exists>c. shared s2 h = Some c \<and> state c = Ready (Inl e))
                    \<and> (\<forall>j h' g ts.
                          \<not> terminated s2 \<and> j < length (workers s2)
                          \<and> workers s2 ! j = Looping \<and> tasks s2 = Packaged h' g # ts \<longrightarrow>
                          (\<exists>s3. exec [Take j, Run j] s2 = Some s3 \<and> \<not> terminated s3
                             \<and> workers s3 ! j = Looping \<and> tasks s3 = ts
                             \<and> (\<exists>c. shared s3 h' = Some c \<and> state c = Ready g)
                             \<and> (\<exists>c. shared s3 h = Some c \<and> state c = Ready (Inl e)))))"
    by blast
next
  assume "workers s ! i = Holding (Fn (Some x))"
  then show "fire (Run i) s = Some (s\<lparr>terminated := True\<rparr>)"
    using assms(2,3) by (simp add: fire_def worker_run_def)
next
  show "\<forall>ev. fire ev (s\<lparr>terminated := True\<rparr>) = None"
    by (simp add: fire_def)
qed

theorem packaged_task_failure_isolated_witness:
  "exec [EnqueueTask (Inl (runtime_error ''boom'')), EnqueueTask (Inr 9), Take 0]
        (SimpleThreadPool 1 :: nat pool)
     = Some \<lparr>workers = [Holding (Packaged 0 (Inl (runtime_error ''boom'')))],
             tasks = [Packaged 1 (Inr 9)], stop = False,
             shared = [0 \<mapsto> new_channel, 1 \<mapsto> new_channel], next_h = 2, cerr = [],
             dtor = None, terminated = False, completed = []\<rparr>
   \<and> (\<exists>s3. exec [Run 0, Take 0, Run 0]
              \<lparr>workers = [Holding (Packaged 0 (Inl (runtime_error ''boom'')))],
               tasks = [Packaged 1 (Inr 9)], stop = False,
               shared = [0 \<mapsto> new_channel, 1 \<mapsto> new_channel], next_h = 2, cerr = [],
               dtor = None, terminated = False, completed = []\<rparr> = Some (s3 :: nat pool)
          \<and> \<not> terminated s3 \<and> workers s3 ! 0 = Looping \<and> tasks s3 = []
          \<and> (\<exists>c. shared s3 0 = Some c \<and> state c = Ready (Inl (runtime_error ''boom'')))
          \<and> (\<exists>c. shared s3 1 = Some c \<and> state c = Ready (Inr 9)))
   \<and> exec [Enqueue (Some (runtime_error ''boom'')), Take 0] (SimpleThreadPool 1 :: nat pool)
     = Some \<lparr>workers = [Holding (Fn (Some (runtime_error ''boom'')))], tasks = [],
             stop = False, shared = Map.empty, next_h = 0, cerr = [], dtor = None,
             terminated = False, completed = []\<rparr>
   \<and> fire (Run 0) \<lparr>workers = [Holding (Fn (Some (runtime_error ''boom'')))], tasks = [],
             stop = False, shared = Map.empty, next_h = 0, cerr = [], dtor = None,
             terminated = False, completed = []\<rparr>
     = Some (\<lparr>workers = [Holding (Fn (Some (runtime_error ''boom'')))], tasks = [],
             stop = False, shared = Map.empty, next_h = 0, cerr = [], dtor = None,
             terminated = True, completed = []\<rparr> :: nat pool)
   \<and> fire (Take 0) (\<lparr>workers = [Holding (Fn (Some (runtime_error ''boom'')))], tasks = [],
             stop = False, shared = Map.empty, next_h = 0, cerr = [], dtor = None,
             terminated = True, completed = []\<rparr> :: nat pool) = None"
proof -
  let ?boom = "runtime_error ''boom''"
  let ?s = "\<lparr>workers = [Holding (Packaged 0 (Inl ?boom))],
             tasks = [Packaged 1 (Inr 9)], stop = False,
             shared = [0 \<mapsto> new_channel, 1 \<mapsto> new_channel], next_h = 2, cerr = [],
             dtor = None, terminated = False, completed = []\<rparr> :: nat pool"
  have a: "exec [EnqueueTask (Inl ?boom), EnqueueTask (Inr 9), Take 0]
        (SimpleThreadPool 1 :: nat pool) = Some ?s"
    by (simp add: fire_def enqueue_task_def worker_take_def SimpleThreadPool_def)
  have t: "\<not> terminated ?s" and i: "0 < length (workers ?s)"
    and h: "workers ?s ! 0 = Holding (Packaged 0 (Inl ?boom))"
    by simp_all
  from packaged_task_failure_isolated [OF a t i, of 0 ?boom] h obtain s1 where
    s1: "fire (Run 0) ?s = Some s1" "\<not> terminated s1" "workers s1 ! 0 = Looping"
        "tasks s1 = tasks ?s"
    and later: "\<forall>es' s2. exec es' s1 = Some s2 \<longrightarrow>
       (\<exists>c. shared s2 0 = Some c \<and> state c = Ready (Inl ?boom))
       \<and> (\<forall>j h' g ts. \<not> terminated s2 \<and> j < length (workers s2)
             \<and> workers s2 ! j = Looping \<and> tasks s2 = Packaged h' g # ts \<longrightarrow>
             (\<exists>s3. exec [Take j, Run j] s2 = Some s3 \<and> \<not> terminated s3
                \<and> workers s3 ! j = Looping \<and> tasks s3 = ts
                \<and> (\<exists>c. shared s3 h' = Some c \<and> state c = Ready g)
                \<and> (\<exists>c. shared s3 0 = Some c \<and> state c = Ready (Inl ?boom))))"
    by blast
  have len: "length (workers s1) = 1"
    using workers_step [OF s1(1)] by simp
  have e: "exec [] s1 = Some s1" by simp
  from later e s1 len obtain s3 where
    s3: "exec [Take 0, Run 0] s1 = Some s3" "\<not> terminated s3" "workers s3 ! 0 = Looping"
        "tasks s3 = []" "\<exists>c. shared s3 1 = Some c \<and> state c = Ready (Inr 9)"
        "\<exists>c. shared s3 0 = Some c \<and> state c = Ready (Inl ?boom)"
    by (metis One_nat_def less_Suc0 pool.select_convs(2))
  from s1(1) s3(1) have r: "exec [Run 0, Take 0, Run 0] ?s = Some s3"
    by (simp del: fire_def)
  let ?p = "\<lparr>workers = [Holding (Fn (Some ?boom))], tasks = [],
             stop = False, shared = Map.empty, next_h = 0, cerr = [], dtor = None,
             terminated = False, completed = []\<rparr> :: nat pool"
  have b: "exec [Enqueue (Some ?boom), Take 0] (SimpleThreadPool 1 :: nat pool) = Some ?p"
    by (simp add: fire_def enqueue_def worker_take_def SimpleThreadPool_def)
  have t': "\<not> terminated ?p" and i': "0 < length (workers ?p)"
    and h': "workers ?p ! 0 = Holding (Fn (Some ?boom))"
    by simp_all
  from packaged_task_failure_isolated [OF b t' i', of 0 ?boom ?boom] h'
  have "fire (Run 0) ?p = Some (?p\<lparr>terminated := True\<rparr>)"
    and "fire (Take 0) (?p\<lparr>terminated := True\<rparr>) = None"
    by blast+
  then have c: "fire (Run 0) ?p = Some (\<lparr>workers = [Holding (Fn (Some ?boom))], tasks = [],
             stop = False, shared = Map.empty, next_h = 0, cerr = [], dtor = None,
             terminated = True, completed = []\<rparr>)"
    "fire (Take 0) (\<lparr>workers = [Holding (Fn (Some ?boom))], tasks = [],
             stop = False, shared = Map.empty, next_h = 0, cerr = [], dtor = None,
             terminated = True, completed = []\<rparr> :: nat pool) = None"
    by simp_all
  from a r s3 b c show ?thesis by blast
qed

subsection \<open>The destructor returns\<close>













end
